theory Spec2Isabelle
  imports Main
begin

section \<open>Values, dictionaries and errors\<close>

text \<open>
  The agents of \<^verbatim>\<open>Test Agent Orchestration for Cloud Architecture Planning.py\<close>
  exchange Python values typed \<^verbatim>\<open>Any\<close>. The values that occur are \<^verbatim>\<open>None\<close>,
  booleans, integers, floats, strings, lists and dictionaries with string keys.
  A \<^verbatim>\<open>str\<close> is carried as its UTF-8 bytes. The only float of the source is the
  literal \<^verbatim>\<open>9.1\<close>, on which no arithmetic is done; a float is carried by the text
  that \<^verbatim>\<open>str()\<close> prints for it. A \<^verbatim>\<open>dict\<close> keeps insertion order, so it is an
  association list; a well-formed one has pairwise distinct keys.
\<close>

datatype pyval =
    VNone
  | VBool bool
  | VInt int
  | VFloat string
  | VStr string
  | VList "pyval list"
  | VDict "(string \<times> pyval) list"

type_synonym dict = "(string \<times> pyval) list"

datatype error = AttributeError | TypeError

definition wf_dict :: "dict \<Rightarrow> bool" where
  "wf_dict d = distinct (map fst d)"

text \<open>\<^verbatim>\<open>d.get(k, default)\<close>\<close>

definition dict_get :: "dict \<Rightarrow> string \<Rightarrow> pyval \<Rightarrow> pyval" where
  "dict_get d k dflt = (case map_of d k of Some v \<Rightarrow> v | None \<Rightarrow> dflt)"

text \<open>\<^verbatim>\<open>d[k] = v\<close>: an existing key keeps its position, a new key goes last.\<close>

fun dict_set :: "dict \<Rightarrow> string \<Rightarrow> pyval \<Rightarrow> dict" where
  "dict_set [] k v = [(k, v)]"
| "dict_set ((k', v') # d) k v =
     (if k' = k then (k, v) # d else (k', v') # dict_set d k v)"

text \<open>\<^verbatim>\<open>{**a, **b}\<close>: the items of \<open>a\<close>, then every item of \<open>b\<close> stored in turn.\<close>

definition dict_merge :: "dict \<Rightarrow> dict \<Rightarrow> dict" where
  "dict_merge a b = foldl (\<lambda>d (k, v). dict_set d k v) a b"

text \<open>\<^verbatim>\<open>obj.get(k, default)\<close> on a value typed \<^verbatim>\<open>Any\<close>: only a dict has \<^verbatim>\<open>get\<close>.\<close>

fun py_get :: "pyval \<Rightarrow> string \<Rightarrow> pyval \<Rightarrow> error + pyval" where
  "py_get (VDict d) k dflt = Inr (dict_get d k dflt)"
| "py_get _ k dflt = Inl AttributeError"

fun starts_with :: "string \<Rightarrow> string \<Rightarrow> bool" where
  "starts_with t [] = True"
| "starts_with [] (c # s) = False"
| "starts_with (d # t) (c # s) = (d = c \<and> starts_with t s)"

fun str_contains :: "string \<Rightarrow> string \<Rightarrow> bool" where
  "str_contains [] s = (s = [])"
| "str_contains (d # t) s = (starts_with (d # t) s \<or> str_contains t s)"

text \<open>
  \<^verbatim>\<open>s in c\<close> for a string \<open>s\<close>: element of a list, substring of a string, key of a
  dict; on a value that is not a container Python raises \<^verbatim>\<open>TypeError\<close>.
\<close>

fun py_in :: "string \<Rightarrow> pyval \<Rightarrow> error + bool" where
  "py_in s (VList xs) = Inr (VStr s \<in> set xs)"
| "py_in s (VStr t) = Inr (str_contains t s)"
| "py_in s (VDict d) = Inr (s \<in> set (map fst d))"
| "py_in s _ = Inl TypeError"

text \<open>\<^verbatim>\<open>sep.join(xs)\<close>\<close>

fun py_join :: "string \<Rightarrow> string list \<Rightarrow> string" where
  "py_join sep [] = []"
| "py_join sep [x] = x"
| "py_join sep (x # y # ys) = x @ sep @ py_join sep (y # ys)"

record AgentResponse =
  name :: string
  output' :: dict

section \<open>ResearchAgent\<close>

definition simulated_results :: dict where
  "simulated_results =
     [(''PCI-DSS'', VStr ''Found compliance guidelines from AWS and GCP docs.''),
      (''GDPR'', VStr ''Retrieved GDPR checklist from official EU documentation.''),
      (''Serverless'',
         VStr ''Compared AWS Lambda vs Cloud Run performance for low-traffic apps.''),
      (''Containers'', VStr ''Fetched ECS vs GKE vs AKS comparison benchmark.'')]"

text \<open>
  \<^verbatim>\<open>ResearchAgent.query\<close> prints one line and returns the table entry or the fallback
  text. The console is the only state it touches: the function takes the lines printed so
  far and returns its value together with the console after the call.
\<close>

definition ResearchAgent_query :: "string \<Rightarrow> string list \<Rightarrow> pyval \<times> string list" where
  "ResearchAgent_query topic console =
     (dict_get simulated_results topic
        (VStr (''No relevant info found for '' @ [CHR 0x27] @ topic @ [CHR 0x27] @ ''.'')),
      console @ [''[ResearchAgent] Searching the web for: '' @ topic @ '' ...''])"

text \<open>The value an agent gets back from \<^verbatim>\<open>self.researcher.query(topic)\<close>.\<close>

definition query :: "string \<Rightarrow> pyval" where
  "query topic = fst (ResearchAgent_query topic [])"

section \<open>The agents\<close>

type_synonym agent = "pyval \<Rightarrow> error + AgentResponse"

definition RequirementsAgent_run :: agent where
  "RequirementsAgent_run problem =
     Inr \<lparr>name = ''RequirementsAgent'',
          output' =
            [(''users_per_day'', VInt 1000),
             (''features'',
                VList [VStr ''catalog'', VStr ''cart'', VStr ''payment'',
                       VStr ''admin_dashboard'']),
             (''data_types'',
                VList [VStr ''user_profiles'', VStr ''payment_info'', VStr ''inventory'']),
             (''constraints'',
                VList [VStr ''scalable'', VStr ''secure_payments'', VStr ''low_ops''])]\<rparr>"

definition security_controls :: pyval where
  "security_controls =
     VList [VStr ''Encryption at rest/in transit'', VStr ''Least-privilege IAM'',
            VStr ''WAF, audit logging'']"

definition ComplianceAgent_run :: agent where
  "ComplianceAgent_run requirements =
     (case py_get requirements ''data_types'' (VList []) of
        Inl e \<Rightarrow> Inl e
      | Inr data_types \<Rightarrow>
          (case py_in ''payment_info'' data_types of
             Inl e \<Rightarrow> Inl e
           | Inr pay \<Rightarrow>
               (case py_in ''user_profiles'' data_types of
                  Inl e \<Rightarrow> Inl e
                | Inr prof \<Rightarrow>
                    (let compliance =
                           (if pay then [VStr ''PCI-DSS''] else []) @
                           (if prof then [VStr ''GDPR''] else []);
                         notes =
                           (if pay then [query ''PCI-DSS''] else []) @
                           (if prof then [query ''GDPR''] else [])
                     in Inr \<lparr>name = ''ComplianceAgent'',
                             output' =
                               [(''required_compliance'',
                                   VList (if compliance = [] then [VStr ''None'']
                                          else compliance)),
                                (''security_controls'', security_controls),
                                (''research_notes'', VList notes)]\<rparr>))))"

definition ArchitectureAgent_run :: agent where
  "ArchitectureAgent_run context =
     (case py_get context ''constraints'' (VList []) of
        Inl e \<Rightarrow> Inl e
      | Inr base \<Rightarrow>
          (case py_in ''low_ops'' base of
             Inl e \<Rightarrow> Inl e
           | Inr low \<Rightarrow>
               (let arch_type = (if low then ''Serverless'' else ''Containers'');
                    reference = query arch_type
                in (case py_get context ''security_controls'' (VList []) of
                      Inl e \<Rightarrow> Inl e
                    | Inr security \<Rightarrow>
                        Inr \<lparr>name = ''ArchitectureAgent'',
                             output' =
                               [(''pattern'', VStr arch_type),
                                (''compute'',
                                   VStr (if arch_type = ''Serverless''
                                         then ''Serverless Functions''
                                         else ''Container Service'')),
                                (''database'', VStr ''Managed PostgreSQL''),
                                (''storage'', VStr ''Object Storage''),
                                (''network'', VStr ''API Gateway + CDN''),
                                (''security'', security),
                                (''research_reference'', reference)]\<rparr>))))"

text \<open>The estimate is \<^verbatim>\<open>~$120-150\<close> with an en dash (U+2013, three bytes).\<close>

definition CostEstimationAgent_run :: agent where
  "CostEstimationAgent_run architecture =
     Inr \<lparr>name = ''CostEstimationAgent'',
          output' =
            [(''monthly_estimate_usd'',
                VStr (''~$120'' @ [CHR 0xE2, CHR 0x80, CHR 0x93] @ ''150'')),
             (''tier'', VStr ''low-cost, scalable''),
             (''optimizations'',
                VList [VStr ''CDN caching for static assets'',
                       VStr ''Auto-suspend idle dev DBs'',
                       VStr ''Serverless pay-per-use model''])]\<rparr>"

definition review_risks :: "string list" where
  "review_risks = [''Cold starts (serverless)'', ''Vendor lock-in (managed DB)'']"

definition ReviewAgent_run :: agent where
  "ReviewAgent_run context =
     (let risks = review_risks; score = ''9.1''
      in Inr \<lparr>name = ''ReviewAgent'',
              output' =
                [(''overall_score'', VFloat score),
                 (''risks'', VList (map VStr risks)),
                 (''summary'',
                    VStr (''Validated architecture with score '' @ score @
                          ''/10. Risks: '' @ py_join '', '' risks))]\<rparr>)"

section \<open>Orchestrator\<close>

record Orchestrator =
  agents :: "agent list"

text \<open>\<^verbatim>\<open>Orchestrator.__init__\<close> stores the list; it has no check and no raise.\<close>

definition Orchestrator_init :: "agent list \<Rightarrow> error + Orchestrator" where
  "Orchestrator_init ags = Inr \<lparr>agents = ags\<rparr>"

text \<open>
  The context handed to the next agent: the merge when the context is a dict, the
  response's output otherwise (the first context is the problem string).
\<close>

fun next_context :: "pyval \<Rightarrow> AgentResponse \<Rightarrow> pyval" where
  "next_context (VDict c) response = VDict (dict_merge c (output' response))"
| "next_context _ response = VDict (output' response)"

definition record_result :: "dict \<Rightarrow> AgentResponse \<Rightarrow> dict" where
  "record_result results response =
     dict_set results (name response) (VDict (output' response))"

text \<open>
  The \<^verbatim>\<open>for\<close> loop of \<^verbatim>\<open>Orchestrator.run\<close> on the pair of its two variables
  \<^verbatim>\<open>results\<close> and \<^verbatim>\<open>context\<close>; an agent that raises ends the loop with its error.
\<close>

fun run_loop :: "agent list \<Rightarrow> dict \<times> pyval \<Rightarrow> error + dict \<times> pyval" where
  "run_loop [] s = Inr s"
| "run_loop (agent # rest) (results, context) =
     (case agent context of
        Inl e \<Rightarrow> Inl e
      | Inr response \<Rightarrow>
          run_loop rest (record_result results response, next_context context response))"

definition Orchestrator_run :: "Orchestrator \<Rightarrow> string \<Rightarrow> error + dict" where
  "Orchestrator_run self problem =
     (case run_loop (agents self) ([], VStr problem) of
        Inl e \<Rightarrow> Inl e
      | Inr (results, context) \<Rightarrow> Inr results)"

text \<open>
  The responses of one run in execution order: the same calls as \<open>run_loop\<close>, on the
  same contexts, collecting what each agent returned.
\<close>

fun run_responses :: "agent list \<Rightarrow> pyval \<Rightarrow> error + AgentResponse list" where
  "run_responses [] context = Inr []"
| "run_responses (agent # rest) context =
     (case agent context of
        Inl e \<Rightarrow> Inl e
      | Inr response \<Rightarrow>
          (case run_responses rest (next_context context response) of
             Inl e \<Rightarrow> Inl e
           | Inr rs \<Rightarrow> Inr (response # rs)))"

text \<open>
  The context that the agent at position \<open>i\<close> is called with: the value of the loop
  variable \<^verbatim>\<open>context\<close> after the first \<open>i\<close> iterations.
\<close>

definition stage_context :: "agent list \<Rightarrow> string \<Rightarrow> nat \<Rightarrow> error + pyval" where
  "stage_context ags problem i =
     (case run_loop (take i ags) ([], VStr problem) of
        Inl e \<Rightarrow> Inl e
      | Inr (results, ctx) \<Rightarrow> Inr ctx)"

text \<open>
  The five agents in the order in which the script's main block lists them, each taken as
  its \<^verbatim>\<open>run\<close> method.
\<close>

definition pipeline :: "agent list" where
  "pipeline = [RequirementsAgent_run, ComplianceAgent_run, ArchitectureAgent_run,
               CostEstimationAgent_run, ReviewAgent_run]"

section \<open>Dictionaries and the loop\<close>

lemma map_of_dict_set: "map_of (dict_set d k v) = (map_of d)(k \<mapsto> v)"
  by (induction d) (auto simp: fun_eq_iff)

lemma key_set_dict_set: "fst ` set (dict_set d k v) = insert k (fst ` set d)"
proof (induction d)
  case Nil
  then show ?case by simp
next
  case (Cons x d)
  obtain k' v' where x: "x = (k', v')" by (cases x)
  show ?case
  proof (cases "k' = k")
    case True
    then show ?thesis by (simp add: x)
  next
    case False
    then show ?thesis using Cons.IH by (simp add: x insert_commute)
  qed
qed

lemma keys_dict_set_old: "k \<in> fst ` set d \<Longrightarrow> map fst (dict_set d k v) = map fst d"
proof (induction d)
  case Nil
  then show ?case by simp
next
  case (Cons x d)
  obtain k' v' where x: "x = (k', v')" by (cases x)
  show ?case
  proof (cases "k' = k")
    case True
    then show ?thesis by (simp add: x)
  next
    case False
    with Cons.prems have "k \<in> fst ` set d" by (simp add: x)
    with Cons.IH False show ?thesis by (simp add: x)
  qed
qed

lemma keys_dict_set_new: "k \<notin> fst ` set d \<Longrightarrow> map fst (dict_set d k v) = map fst d @ [k]"
proof (induction d)
  case Nil
  then show ?case by simp
next
  case (Cons x d)
  obtain k' v' where x: "x = (k', v')" by (cases x)
  from Cons.prems have "k' \<noteq> k" and "k \<notin> fst ` set d" by (auto simp: x)
  with Cons.IH show ?case by (simp add: x)
qed

lemma keys_dict_set:
  "map fst (dict_set d k v) = (if k \<in> fst ` set d then map fst d else map fst d @ [k])"
  by (simp add: keys_dict_set_old keys_dict_set_new)

lemma wf_dict_set: "wf_dict d \<Longrightarrow> wf_dict (dict_set d k v)"
  by (simp add: wf_dict_def keys_dict_set)

lemma map_of_dict_merge:
  "wf_dict b \<Longrightarrow> map_of (dict_merge a b) k =
     (case map_of b k of Some v \<Rightarrow> Some v | None \<Rightarrow> map_of a k)"
  unfolding dict_merge_def wf_dict_def
proof (induction b arbitrary: a)
  case Nil
  then show ?case by simp
next
  case (Cons x b)
  obtain k' v' where x: "x = (k', v')" by (cases x)
  from Cons.prems have nin: "k' \<notin> set (map fst b)" and d: "distinct (map fst b)"
    by (simp_all add: x)
  from nin have none: "map_of b k' = None"
    by (simp add: map_of_eq_None_iff)
  show ?case
    using Cons.IH [OF d, of "dict_set a k' v'"] none
    by (simp add: x map_of_dict_set split: option.splits)
qed

lemma keys_dict_merge:
  "set (map fst (dict_merge a b)) = set (map fst a) \<union> set (map fst b)"
  unfolding dict_merge_def
proof (induction b arbitrary: a)
  case Nil
  then show ?case by simp
next
  case (Cons x b)
  obtain k' v' where x: "x = (k', v')" by (cases x)
  have "set (map fst (foldl (\<lambda>d (k, v). dict_set d k v) (dict_set a k' v') b)) =
        set (map fst (dict_set a k' v')) \<union> set (map fst b)"
    by (rule Cons.IH)
  then show ?case
    by (auto simp: x keys_dict_set split: if_splits)
qed

lemma run_loop_responses:
  "run_loop ags (results, ctx) =
     (case run_responses ags ctx of
        Inl e \<Rightarrow> Inl e
      | Inr rs \<Rightarrow> Inr (foldl record_result results rs, foldl next_context ctx rs))"
  by (induction ags arbitrary: results ctx) (auto split: sum.splits)

lemma run_responses_append:
  "run_responses (xs @ ys) ctx =
     (case run_responses xs ctx of
        Inl e \<Rightarrow> Inl e
      | Inr rs \<Rightarrow>
          (case run_responses ys (foldl next_context ctx rs) of
             Inl e \<Rightarrow> Inl e
           | Inr rs' \<Rightarrow> Inr (rs @ rs')))"
  by (induction xs arbitrary: ctx) (auto split: sum.splits)

lemma run_responses_length:
  "run_responses ags ctx = Inr rs \<Longrightarrow> length rs = length ags"
  by (induction ags arbitrary: ctx rs) (auto split: sum.splits)

lemma run_responses_take:
  "run_responses ags ctx = Inr rs \<Longrightarrow> run_responses (take i ags) ctx = Inr (take i rs)"
proof (induction ags arbitrary: ctx rs i)
  case Nil
  then show ?case by simp
next
  case (Cons a ags)
  then show ?case
    by (cases i) (auto split: sum.splits)
qed

lemma keys_record_results:
  "distinct (map fst results @ map name rs) \<Longrightarrow>
   map fst (foldl record_result results rs) = map fst results @ map name rs"
proof (induction rs arbitrary: results)
  case Nil
  then show ?case by simp
next
  case (Cons r rs)
  have k: "map fst (record_result results r) = map fst results @ [name r]"
    using Cons.prems by (simp add: record_result_def keys_dict_set)
  show ?case
    using Cons.IH [of "record_result results r"] Cons.prems by (simp add: k)
qed

lemma keys_set_record_results:
  "fst ` set (foldl record_result results rs) = fst ` set results \<union> name ` set rs"
  by (induction rs arbitrary: results) (simp_all add: record_result_def key_set_dict_set)

lemma wf_record_results:
  "wf_dict results \<Longrightarrow> wf_dict (foldl record_result results rs)"
  by (induction rs arbitrary: results) (auto simp: record_result_def wf_dict_set)

lemma map_of_record_results:
  "i < length rs \<Longrightarrow> \<forall>j. i < j \<and> j < length rs \<longrightarrow> name (rs ! j) \<noteq> name (rs ! i) \<Longrightarrow>
   map_of (foldl record_result results rs) (name (rs ! i)) = Some (VDict (output' (rs ! i)))"
proof (induction rs rule: rev_induct)
  case Nil
  then show ?case by simp
next
  case (snoc r rs)
  show ?case
  proof (cases "i = length rs")
    case True
    then show ?thesis by (simp add: record_result_def map_of_dict_set)
  next
    case False
    with snoc.prems(1) have i: "i < length rs" by simp
    from snoc.prems(2) i have later: "\<forall>j. i < j \<and> j < length rs \<longrightarrow> name (rs ! j) \<noteq> name (rs ! i)"
      by (auto simp: nth_append split: if_splits)
    from snoc.prems(2) [rule_format, of "length rs"] i have ne: "name r \<noteq> name (rs ! i)"
      by (simp add: nth_append)
    show ?thesis
      using snoc.IH [OF i later] ne i
      by (simp add: record_result_def map_of_dict_set nth_append)
  qed
qed

lemma run_loop_append:
  "run_loop (xs @ ys) s =
     (case run_loop xs s of Inl e \<Rightarrow> Inl e | Inr s' \<Rightarrow> run_loop ys s')"
proof (induction xs arbitrary: s)
  case Nil
  then show ?case by simp
next
  case (Cons a xs)
  obtain results ctx where s: "s = (results, ctx)" by (cases s)
  show ?case by (simp add: s Cons.IH split: sum.splits)
qed

lemma map_of_dict_merge_absent:
  "map_of b k = None \<Longrightarrow> map_of (dict_merge a b) k = map_of a k"
  unfolding dict_merge_def
proof (induction b arbitrary: a)
  case Nil
  then show ?case by simp
next
  case (Cons x b)
  obtain k' v' where x: "x = (k', v')" by (cases x)
  from Cons.prems have ne: "k' \<noteq> k" and none: "map_of b k = None"
    by (auto simp: x split: if_splits)
  show ?case
    using Cons.IH [OF none, of "dict_set a k' v'"] ne
    by (simp add: x map_of_dict_set)
qed

lemma map_of_dict_merge_present:
  "wf_dict b \<Longrightarrow> map_of b k = Some v \<Longrightarrow> map_of (dict_merge a b) k = Some v"
  by (simp add: map_of_dict_merge)

lemma run_responses_snoc:
  "run_responses xs ctx = Inr rs \<Longrightarrow>
   run_responses (xs @ [a]) ctx =
     (case a (foldl next_context ctx rs) of Inl e \<Rightarrow> Inl e | Inr r \<Rightarrow> Inr (rs @ [r]))"
  by (simp add: run_responses_append split: sum.splits)

lemma stage_context_responses:
  "run_responses (take i ags) (VStr problem) = Inr rs \<Longrightarrow>
   stage_context ags problem i = Inr (foldl next_context (VStr problem) rs)"
  by (simp add: stage_context_def run_loop_responses)

lemma context_keys_dict:
  "\<exists>d. foldl next_context (VDict c) rs = VDict d
       \<and> fst ` set d = fst ` set c \<union> (\<Union>r\<in>set rs. fst ` set (output' r))"
proof (induction rs arbitrary: c)
  case Nil
  then show ?case by simp
next
  case (Cons r rs)
  have k: "fst ` set (dict_merge c (output' r)) = fst ` set c \<union> fst ` set (output' r)"
    using keys_dict_merge [of c "output' r"] by simp
  from Cons.IH [of "dict_merge c (output' r)"] show ?case
    by (auto simp: k)
qed

lemma context_keys:
  assumes "rs \<noteq> []"
  shows "\<exists>d. foldl next_context (VStr p) rs = VDict d
           \<and> fst ` set d = (\<Union>r\<in>set rs. fst ` set (output' r))"
proof -
  from assms obtain r rs' where rs: "rs = r # rs'" by (cases rs) auto
  from context_keys_dict [of "output' r" rs'] show ?thesis
    by (auto simp: rs)
qed

lemma context_last_setter:
  "j < length rs \<Longrightarrow> map_of (output' (rs ! j)) k = Some v \<Longrightarrow> wf_dict (output' (rs ! j)) \<Longrightarrow>
   \<forall>l. j < l \<and> l < length rs \<longrightarrow> map_of (output' (rs ! l)) k = None \<Longrightarrow>
   \<exists>d. foldl next_context ctx0 rs = VDict d \<and> map_of d k = Some v"
proof (induction rs rule: rev_induct)
  case Nil
  then show ?case by simp
next
  case (snoc r rs)
  show ?case
  proof (cases "j = length rs")
    case True
    with snoc.prems have v: "map_of (output' r) k = Some v" and wf: "wf_dict (output' r)"
      by simp_all
    show ?thesis
      by (cases "foldl next_context ctx0 rs")
         (simp_all add: v map_of_dict_merge_present [OF wf v])
  next
    case False
    with snoc.prems(1) have j: "j < length rs" by simp
    from snoc.prems j have v: "map_of (output' (rs ! j)) k = Some v"
      and wf: "wf_dict (output' (rs ! j))"
      by (simp_all add: nth_append)
    from snoc.prems(4) j have later:
      "\<forall>l. j < l \<and> l < length rs \<longrightarrow> map_of (output' (rs ! l)) k = None"
      by (auto simp: nth_append split: if_splits)
    from snoc.prems(4) [rule_format, of "length rs"] j
    have none: "map_of (output' r) k = None"
      by (simp add: nth_append)
    from snoc.IH [OF j v wf later] obtain d where
      d: "foldl next_context ctx0 rs = VDict d" and dv: "map_of d k = Some v"
      by blast
    show ?thesis
      by (simp add: d dv map_of_dict_merge_absent [OF none])
  qed
qed

lemma length_record_results:
  "length (foldl record_result [] rs) = card (name ` set rs)"
proof -
  have wf: "distinct (map fst (foldl record_result [] rs))"
    using wf_record_results [of "[]" rs] by (simp add: wf_dict_def)
  have "length (foldl record_result [] rs) = length (map fst (foldl record_result [] rs))"
    by simp
  also have "\<dots> = card (set (map fst (foldl record_result [] rs)))"
    using wf by (simp only: distinct_card)
  also have "\<dots> = card (name ` set rs)"
    using keys_set_record_results [of "[]" rs] by simp
  finally show ?thesis .
qed

lemmas agent_defs = RequirementsAgent_run_def ComplianceAgent_run_def
  ArchitectureAgent_run_def CostEstimationAgent_run_def ReviewAgent_run_def
  dict_get_def dict_merge_def Let_def

lemma pipeline_responses:
  "\<exists>rs. run_responses pipeline (VStr problem) = Inr rs
        \<and> map name rs = [''RequirementsAgent'', ''ComplianceAgent'', ''ArchitectureAgent'',
                          ''CostEstimationAgent'', ''ReviewAgent'']"
  by (simp add: pipeline_def RequirementsAgent_run_def ComplianceAgent_run_def
      ArchitectureAgent_run_def CostEstimationAgent_run_def ReviewAgent_run_def
      dict_get_def dict_merge_def Let_def)

text \<open>
  On every problem string the listed pipeline runs to the end and returns one entry per
  agent, in order.
\<close>

lemma pipeline_run_complete:
  "\<exists>results. Orchestrator_run \<lparr>agents = pipeline\<rparr> problem = Inr results
      \<and> map fst results = [''RequirementsAgent'', ''ComplianceAgent'', ''ArchitectureAgent'',
                            ''CostEstimationAgent'', ''ReviewAgent'']"
proof -
  from pipeline_responses [of problem] obtain rs where
    both: "run_responses pipeline (VStr problem) = Inr rs
           \<and> map name rs = [''RequirementsAgent'', ''ComplianceAgent'',
                 ''ArchitectureAgent'', ''CostEstimationAgent'', ''ReviewAgent'']" ..
  note rs = both [THEN conjunct1] and names = both [THEN conjunct2]
  have run: "Orchestrator_run \<lparr>agents = pipeline\<rparr> problem = Inr (foldl record_result [] rs)"
    by (simp add: Orchestrator_run_def run_loop_responses rs)
  have "distinct (map name rs)"
    by (simp add: names)
  then have "map fst (foldl record_result [] rs) = map name rs"
    using keys_record_results [of "[]" rs] by simp
  then have "map fst (foldl record_result [] rs) =
               [''RequirementsAgent'', ''ComplianceAgent'', ''ArchitectureAgent'',
                ''CostEstimationAgent'', ''ReviewAgent'']"
    by (simp only: names)
  with run show ?thesis by simp
qed

section \<open>Properties of the agents\<close>

text \<open>
  C10: for any two input contexts, \<^verbatim>\<open>CostEstimationAgent.run\<close> returns Findings that
  are equal in every field: the monthly estimate, the tier and the optimisation list are
  constants that do not depend on the input.
\<close>

theorem cost_estimation_ignores_context:
  "CostEstimationAgent_run c1 = CostEstimationAgent_run c2
   \<and> (\<exists>r. CostEstimationAgent_run c1 = Inr r
          \<and> name r = ''CostEstimationAgent''
          \<and> map fst (output' r) = [''monthly_estimate_usd'', ''tier'', ''optimizations''])"
  by (simp add: CostEstimationAgent_run_def)



text \<open>
  C7 (as the code has it): on every context that is a dict whose \<^verbatim>\<open>data_types\<close> field
  is absent, or is a list, a string or a dict that contains neither \<^verbatim>\<open>payment_info\<close>
  nor \<^verbatim>\<open>user_profiles\<close> (element of the list, substring of the string, key of the
  dict), \<^verbatim>\<open>ComplianceAgent.run\<close> returns a Finding whose \<^verbatim>\<open>required_compliance\<close> is
  the sentinel list \<^verbatim>\<open>["None"]\<close>, not an empty or absent list.
\<close>

theorem compliance_sentinel:
  assumes "map_of d ''data_types'' = None
           \<or> (\<exists>xs. map_of d ''data_types'' = Some (VList xs)
                  \<and> VStr ''payment_info'' \<notin> set xs \<and> VStr ''user_profiles'' \<notin> set xs)
           \<or> (\<exists>t. map_of d ''data_types'' = Some (VStr t)
                  \<and> \<not> str_contains t ''payment_info'' \<and> \<not> str_contains t ''user_profiles'')
           \<or> (\<exists>m. map_of d ''data_types'' = Some (VDict m)
                  \<and> ''payment_info'' \<notin> fst ` set m \<and> ''user_profiles'' \<notin> fst ` set m)"
  shows "\<exists>r. ComplianceAgent_run (VDict d) = Inr r
             \<and> name r = ''ComplianceAgent''
             \<and> map_of (output' r) ''required_compliance'' = Some (VList [VStr ''None''])"
proof -
  have tests: "py_in ''payment_info'' (dict_get d ''data_types'' (VList [])) = Inr False
               \<and> py_in ''user_profiles'' (dict_get d ''data_types'' (VList [])) = Inr False"
    using assms by (auto simp: dict_get_def)
  then show ?thesis
    by (simp add: ComplianceAgent_run_def)
qed

text \<open>
  A context whose field is a list of other categories, a context without the field, and a
  context whose field is a string.
\<close>

theorem compliance_sentinel_witness:
  "(\<exists>r. ComplianceAgent_run (VDict [(''data_types'', VList [VStr ''inventory''])]) = Inr r
       \<and> name r = ''ComplianceAgent''
       \<and> map_of (output' r) ''required_compliance'' = Some (VList [VStr ''None'']))
   \<and> (\<exists>r. ComplianceAgent_run (VDict []) = Inr r
       \<and> name r = ''ComplianceAgent''
       \<and> map_of (output' r) ''required_compliance'' = Some (VList [VStr ''None'']))
   \<and> (\<exists>r. ComplianceAgent_run (VDict [(''data_types'', VStr ''logs'')]) = Inr r
       \<and> name r = ''ComplianceAgent''
       \<and> map_of (output' r) ''required_compliance'' = Some (VList [VStr ''None'']))"
proof -
  have h1: "map_of [(''data_types'', VList [VStr ''inventory''])] ''data_types'' = None
           \<or> (\<exists>xs. map_of [(''data_types'', VList [VStr ''inventory''])] ''data_types''
                      = Some (VList xs)
                  \<and> VStr ''payment_info'' \<notin> set xs \<and> VStr ''user_profiles'' \<notin> set xs)
           \<or> (\<exists>t. map_of [(''data_types'', VList [VStr ''inventory''])] ''data_types''
                      = Some (VStr t)
                  \<and> \<not> str_contains t ''payment_info'' \<and> \<not> str_contains t ''user_profiles'')
           \<or> (\<exists>m. map_of [(''data_types'', VList [VStr ''inventory''])] ''data_types''
                      = Some (VDict m)
                  \<and> ''payment_info'' \<notin> fst ` set m \<and> ''user_profiles'' \<notin> fst ` set m)"
    by simp
  have h2: "map_of ([] :: dict) ''data_types'' = None
           \<or> (\<exists>xs. map_of ([] :: dict) ''data_types'' = Some (VList xs)
                  \<and> VStr ''payment_info'' \<notin> set xs \<and> VStr ''user_profiles'' \<notin> set xs)
           \<or> (\<exists>t. map_of ([] :: dict) ''data_types'' = Some (VStr t)
                  \<and> \<not> str_contains t ''payment_info'' \<and> \<not> str_contains t ''user_profiles'')
           \<or> (\<exists>m. map_of ([] :: dict) ''data_types'' = Some (VDict m)
                  \<and> ''payment_info'' \<notin> fst ` set m \<and> ''user_profiles'' \<notin> fst ` set m)"
    by simp
  have h3: "map_of [(''data_types'', VStr ''logs'')] ''data_types'' = None
           \<or> (\<exists>xs. map_of [(''data_types'', VStr ''logs'')] ''data_types'' = Some (VList xs)
                  \<and> VStr ''payment_info'' \<notin> set xs \<and> VStr ''user_profiles'' \<notin> set xs)
           \<or> (\<exists>t. map_of [(''data_types'', VStr ''logs'')] ''data_types'' = Some (VStr t)
                  \<and> \<not> str_contains t ''payment_info'' \<and> \<not> str_contains t ''user_profiles'')
           \<or> (\<exists>m. map_of [(''data_types'', VStr ''logs'')] ''data_types'' = Some (VDict m)
                  \<and> ''payment_info'' \<notin> fst ` set m \<and> ''user_profiles'' \<notin> fst ` set m)"
    by simp
  note r1 = compliance_sentinel [OF h1]
    and r2 = compliance_sentinel [OF h2]
    and r3 = compliance_sentinel [OF h3]
  from r2 r3 have "(\<exists>r. ComplianceAgent_run (VDict []) = Inr r
       \<and> name r = ''ComplianceAgent''
       \<and> map_of (output' r) ''required_compliance'' = Some (VList [VStr ''None'']))
   \<and> (\<exists>r. ComplianceAgent_run (VDict [(''data_types'', VStr ''logs'')]) = Inr r
       \<and> name r = ''ComplianceAgent''
       \<and> map_of (output' r) ''required_compliance'' = Some (VList [VStr ''None'']))"
    by (rule conjI)
  with r1 show ?thesis by (rule conjI)
qed

text \<open>
  C7 as stated fails: a \<^verbatim>\<open>data_types\<close> field that is \<^verbatim>\<open>None\<close> or a number contains
  no regulated category, yet the membership test raises \<^verbatim>\<open>TypeError\<close>; and on a context
  that is no dict, such as the problem string that a first-position agent receives, the
  call of \<^verbatim>\<open>get\<close> raises \<^verbatim>\<open>AttributeError\<close>. No Finding is returned.
\<close>

theorem compliance_raises_outside_domain:
  "ComplianceAgent_run (VDict [(''data_types'', VNone)]) = Inl TypeError
   \<and> ComplianceAgent_run (VDict [(''data_types'', VInt 5)]) = Inl TypeError
   \<and> ComplianceAgent_run (VStr ''online store'') = Inl AttributeError"
  by (simp add: ComplianceAgent_run_def dict_get_def)

text \<open>
  C9 (as the code has it): for every input context \<^verbatim>\<open>ReviewAgent.run\<close> returns, without
  raising, one and the same Finding; its risks are always the two fixed entries, whatever
  the context holds or lacks.
\<close>

theorem review_constant:
  "ReviewAgent_run ctx =
     Inr \<lparr>name = ''ReviewAgent'',
          output' =
            [(''overall_score'', VFloat ''9.1''),
             (''risks'',
                VList [VStr ''Cold starts (serverless)'', VStr ''Vendor lock-in (managed DB)'']),
             (''summary'',
                VStr (''Validated architecture with score 9.1/10. Risks: '' @
                      ''Cold starts (serverless), Vendor lock-in (managed DB)''))]\<rparr>"
  by (simp add: ReviewAgent_run_def review_risks_def)

text \<open>
  C9 as stated fails: on the empty context, where every upstream field is missing, the
  risks of the returned Finding do not list \<^verbatim>\<open>insufficient information\<close>.
\<close>

theorem review_no_insufficient_information:
  "(case ReviewAgent_run (VDict []) of
      Inl e \<Rightarrow> False
    | Inr r \<Rightarrow>
        py_in ''insufficient information'' (dict_get (output' r) ''risks'' VNone) = Inr False)"
  by (simp add: ReviewAgent_run_def review_risks_def dict_get_def)

section \<open>Properties of the Orchestrator\<close>

text \<open>
  C1 (as the code has it): for every problem string, empty or not, on which no agent of
  the configured list raises and the agents return pairwise distinct names,
  \<^verbatim>\<open>Orchestrator.run\<close> returns a mapping with exactly one entry per configured agent,
  keyed by the name that agent returned, in the order of the list.
\<close>

theorem run_one_entry_per_stage:
  assumes "run_responses (agents self) (VStr problem) = Inr rs"
    and "distinct (map name rs)"
  shows "\<exists>results. Orchestrator_run self problem = Inr results
           \<and> length results = length (agents self)
           \<and> map fst results = map name rs"
proof -
  have run: "Orchestrator_run self problem = Inr (foldl record_result [] rs)"
    by (simp add: Orchestrator_run_def run_loop_responses assms(1))
  have keys: "map fst (foldl record_result [] rs) = map name rs"
    using keys_record_results [of "[]" rs] assms(2) by simp
  have "length (foldl record_result [] rs) = length (map fst (foldl record_result [] rs))"
    by simp
  also have "\<dots> = length (agents self)"
    using run_responses_length [OF assms(1)] by (simp only: keys length_map)
  finally show ?thesis using run keys by simp
qed

text \<open>The five agents of the script on a sample problem.\<close>

theorem run_one_entry_per_stage_witness:
  "\<exists>results. Orchestrator_run \<lparr>agents = pipeline\<rparr> ''online store'' = Inr results
      \<and> length results = 5
      \<and> map fst results = [''RequirementsAgent'', ''ComplianceAgent'', ''ArchitectureAgent'',
                            ''CostEstimationAgent'', ''ReviewAgent'']"
proof -
  from pipeline_responses [of "''online store''"] obtain rs where
    both: "run_responses pipeline (VStr ''online store'') = Inr rs
           \<and> map name rs = [''RequirementsAgent'', ''ComplianceAgent'',
                 ''ArchitectureAgent'', ''CostEstimationAgent'', ''ReviewAgent'']" ..
  note rs = both [THEN conjunct1] and names = both [THEN conjunct2]
  have h1: "run_responses (agents \<lparr>agents = pipeline\<rparr>) (VStr ''online store'') = Inr rs"
    using rs by simp
  have h2: "distinct (map name rs)"
    by (simp add: names)
  have len: "length (agents \<lparr>agents = pipeline\<rparr>) = 5"
    by (simp add: pipeline_def)
  from run_one_entry_per_stage [OF h1 h2] show ?thesis
    by (simp only: len names)
qed

text \<open>
  C1 as stated fails: two agents that return the same name leave one entry for two
  configured agents, and a list that starts with \<^verbatim>\<open>ComplianceAgent\<close> returns no
  mapping at all, because that agent calls \<^verbatim>\<open>get\<close> on the problem string.
\<close>

theorem run_duplicate_name_or_raise:
  "(case Orchestrator_run \<lparr>agents = [RequirementsAgent_run, RequirementsAgent_run]\<rparr>
          ''online store'' of
      Inl e \<Rightarrow> False
    | Inr results \<Rightarrow> map fst results = [''RequirementsAgent''])
   \<and> Orchestrator_run \<lparr>agents = [ComplianceAgent_run]\<rparr> ''online store''
       = Inl AttributeError"
  by (simp add: Orchestrator_run_def RequirementsAgent_run_def ComplianceAgent_run_def
      record_result_def)

text \<open>
  C2 (as the code has it): for every problem string on which no agent raises,
  \<^verbatim>\<open>Orchestrator.run\<close> returns the \<^verbatim>\<open>results\<close> mapping alone. Its keys are the
  names the agents returned, and each name is bound to the output of the last agent that
  returned it. The merged context after the last agent is the second loop variable; it is
  not part of the returned value.
\<close>

theorem run_returns_results_only:
  assumes "run_responses (agents self) (VStr problem) = Inr rs"
  shows "\<exists>results.
           run_loop (agents self) ([], VStr problem)
             = Inr (results, foldl next_context (VStr problem) rs)
           \<and> Orchestrator_run self problem = Inr results
           \<and> fst ` set results = name ` set rs
           \<and> (\<forall>i<length rs.
                 (\<forall>j. i < j \<and> j < length rs \<longrightarrow> name (rs ! j) \<noteq> name (rs ! i)) \<longrightarrow>
                 map_of results (name (rs ! i)) = Some (VDict (output' (rs ! i))))"
proof -
  let ?results = "foldl record_result [] rs"
  have loop: "run_loop (agents self) ([], VStr problem)
                = Inr (?results, foldl next_context (VStr problem) rs)"
    by (simp add: run_loop_responses assms)
  have run: "Orchestrator_run self problem = Inr ?results"
    by (simp add: Orchestrator_run_def loop)
  have keys: "fst ` set ?results = name ` set rs"
    using keys_set_record_results [of "[]" rs] by simp
  have vals: "\<forall>i<length rs.
                 (\<forall>j. i < j \<and> j < length rs \<longrightarrow> name (rs ! j) \<noteq> name (rs ! i)) \<longrightarrow>
                 map_of ?results (name (rs ! i)) = Some (VDict (output' (rs ! i)))"
    using map_of_record_results [of _ rs "[]"] by blast
  from loop run keys vals show ?thesis by blast
qed

text \<open>Two agents of the script on a sample problem.\<close>

theorem run_returns_results_only_witness:
  "\<exists>results ctx.
      run_loop [RequirementsAgent_run, CostEstimationAgent_run] ([], VStr ''online store'')
        = Inr (results, ctx)
      \<and> Orchestrator_run \<lparr>agents = [RequirementsAgent_run, CostEstimationAgent_run]\<rparr>
            ''online store'' = Inr results
      \<and> fst ` set results = {''RequirementsAgent'', ''CostEstimationAgent''}"
proof -
  let ?ags = "[RequirementsAgent_run, CostEstimationAgent_run]"
  have "\<exists>rs. run_responses ?ags (VStr ''online store'') = Inr rs
          \<and> name ` set rs = {''RequirementsAgent'', ''CostEstimationAgent''}"
    by (simp add: RequirementsAgent_run_def CostEstimationAgent_run_def)
  then obtain rs where rs: "run_responses ?ags (VStr ''online store'') = Inr rs"
    and names: "name ` set rs = {''RequirementsAgent'', ''CostEstimationAgent''}"
    by blast
  have h: "run_responses (agents \<lparr>agents = ?ags\<rparr>) (VStr ''online store'') = Inr rs"
    using rs by simp
  from run_returns_results_only [OF h] show ?thesis
    by (auto simp: names)
qed

text \<open>
  C2 as stated fails: the returned mapping has the agents' names as its only keys, the
  final context is none of its values, and the mapping is not the context either.
\<close>

theorem run_result_has_no_final_context:
  "(case run_loop [RequirementsAgent_run, CostEstimationAgent_run]
           ([], VStr ''online store'') of
      Inl e \<Rightarrow> False
    | Inr (results, ctx) \<Rightarrow>
        Orchestrator_run \<lparr>agents = [RequirementsAgent_run, CostEstimationAgent_run]\<rparr>
            ''online store'' = Inr results
        \<and> map fst results = [''RequirementsAgent'', ''CostEstimationAgent'']
        \<and> ctx \<notin> set (map snd results)
        \<and> VDict results \<noteq> ctx)"
  by (simp add: Orchestrator_run_def RequirementsAgent_run_def CostEstimationAgent_run_def
      record_result_def dict_merge_def)

text \<open>
  C3 (as the code has it): the context starts as the problem string itself and the first
  agent is called with that string. Before any later agent runs, the context is a dict
  whose key set is exactly the union of the keys of the outputs that the earlier agents of
  the run returned. Agent \<open>i\<close> is called with exactly that context.
\<close>

theorem stage_context_keys:
  assumes "run_responses (take i ags) (VStr problem) = Inr rs"
  shows "stage_context ags problem 0 = Inr (VStr problem)
         \<and> stage_context ags problem i = Inr (foldl next_context (VStr problem) rs)
         \<and> (0 < i \<and> i \<le> length ags \<longrightarrow>
              (\<exists>d. stage_context ags problem i = Inr (VDict d)
                   \<and> fst ` set d = (\<Union>r\<in>set rs. fst ` set (output' r))))
         \<and> (i < length ags \<longrightarrow>
              run_responses (take (Suc i) ags) (VStr problem) =
                (case (ags ! i) (foldl next_context (VStr problem) rs) of
                   Inl e \<Rightarrow> Inl e
                 | Inr r \<Rightarrow> Inr (rs @ [r])))"
proof -
  have zero: "stage_context ags problem 0 = Inr (VStr problem)"
    by (simp add: stage_context_def)
  have ctx: "stage_context ags problem i = Inr (foldl next_context (VStr problem) rs)"
    by (rule stage_context_responses [OF assms])
  have keys: "\<exists>d. stage_context ags problem i = Inr (VDict d)
                   \<and> fst ` set d = (\<Union>r\<in>set rs. fst ` set (output' r))"
    if "0 < i \<and> i \<le> length ags"
  proof -
    from run_responses_length [OF assms] that have "length rs = i" by simp
    with that have "rs \<noteq> []" by auto
    from context_keys [OF this, of problem] ctx show ?thesis by auto
  qed
  have step: "run_responses (take (Suc i) ags) (VStr problem) =
                (case (ags ! i) (foldl next_context (VStr problem) rs) of
                   Inl e \<Rightarrow> Inl e
                 | Inr r \<Rightarrow> Inr (rs @ [r]))"
    if "i < length ags"
    using run_responses_snoc [OF assms, of "ags ! i"] that
    by (simp add: take_Suc_conv_app_nth)
  from zero ctx keys step show ?thesis by blast
qed

text \<open>The context that the third agent of the script's pipeline receives.\<close>

theorem stage_context_keys_witness:
  "\<exists>d. stage_context pipeline ''online store'' 2 = Inr (VDict d)
      \<and> fst ` set d = {''users_per_day'', ''features'', ''data_types'', ''constraints'',
                        ''required_compliance'', ''security_controls'', ''research_notes''}"
proof -
  have "\<exists>rs. run_responses (take 2 pipeline) (VStr ''online store'') = Inr rs
          \<and> (\<Union>r\<in>set rs. fst ` set (output' r)) =
              {''users_per_day'', ''features'', ''data_types'', ''constraints'',
               ''required_compliance'', ''security_controls'', ''research_notes''}"
    by (simp add: pipeline_def agent_defs insert_commute)
  then obtain rs where
    both: "run_responses (take 2 pipeline) (VStr ''online store'') = Inr rs
          \<and> (\<Union>r\<in>set rs. fst ` set (output' r)) =
              {''users_per_day'', ''features'', ''data_types'', ''constraints'',
               ''required_compliance'', ''security_controls'', ''research_notes''}" ..
  note rs = both [THEN conjunct1] and keys = both [THEN conjunct2]
  have len: "0 < (2::nat) \<and> 2 \<le> length pipeline"
    by (simp add: pipeline_def)
  from stage_context_keys [OF rs] len
  have "\<exists>d. stage_context pipeline ''online store'' 2 = Inr (VDict d)
          \<and> fst ` set d = (\<Union>r\<in>set rs. fst ` set (output' r))"
    by blast
  then show ?thesis by (simp only: keys)
qed

text \<open>
  C3 as stated fails: the first agent receives the string, not a dict with a
  \<^verbatim>\<open>problem\<close> key, and the context of the second agent has no \<^verbatim>\<open>problem\<close> key.
\<close>

theorem stage_context_not_seeded:
  "stage_context pipeline ''online store'' 0 = Inr (VStr ''online store'')
   \<and> stage_context pipeline ''online store'' 0
       \<noteq> Inr (VDict [(''problem'', VStr ''online store'')])
   \<and> (case stage_context pipeline ''online store'' 1 of
         Inl e \<Rightarrow> False
       | Inr ctx \<Rightarrow> py_in ''problem'' ctx = Inr False)"
  by (simp add: stage_context_def pipeline_def RequirementsAgent_run_def)

text \<open>
  C4 (as the code has it): when the agent at position \<open>i\<close> raises on the context it
  is called with, \<^verbatim>\<open>Orchestrator.run\<close> ends with that error: no default Finding is
  substituted, the later agents do not run and no mapping is returned.
\<close>

theorem stage_fault_propagates:
  assumes "i < length ags"
    and "stage_context ags problem i = Inr ctx"
    and "(ags ! i) ctx = Inl e"
  shows "Orchestrator_run \<lparr>agents = ags\<rparr> problem = Inl e"
proof -
  from assms(2) obtain results where
    pre: "run_loop (take i ags) ([], VStr problem) = Inr (results, ctx)"
    by (auto simp: stage_context_def split: sum.splits)
  have split: "ags = take i ags @ (ags ! i) # drop (Suc i) ags"
    using assms(1) by (simp add: id_take_nth_drop)
  have "run_loop ags ([], VStr problem) =
          run_loop ((ags ! i) # drop (Suc i) ags) (results, ctx)"
    using run_loop_append [of "take i ags" "(ags ! i) # drop (Suc i) ags" "([], VStr problem)"]
      split pre by simp
  also have "\<dots> = Inl e"
    by (simp add: assms(3))
  finally show ?thesis
    by (simp add: Orchestrator_run_def)
qed

text \<open>A list whose second agent raises \<^verbatim>\<open>TypeError\<close> on every context.\<close>

theorem stage_fault_propagates_witness:
  "stage_context [RequirementsAgent_run, (\<lambda>ctx. Inl TypeError), ReviewAgent_run]
      ''online store'' 1
     = Inr (VDict [(''users_per_day'', VInt 1000),
             (''features'',
                VList [VStr ''catalog'', VStr ''cart'', VStr ''payment'',
                       VStr ''admin_dashboard'']),
             (''data_types'',
                VList [VStr ''user_profiles'', VStr ''payment_info'', VStr ''inventory'']),
             (''constraints'',
                VList [VStr ''scalable'', VStr ''secure_payments'', VStr ''low_ops''])])
   \<and> Orchestrator_run
        \<lparr>agents = [RequirementsAgent_run, (\<lambda>ctx. Inl TypeError),
                   ReviewAgent_run]\<rparr> ''online store''
       = Inl TypeError"
proof -
  let ?ags = "[RequirementsAgent_run, (\<lambda>ctx. Inl TypeError), ReviewAgent_run]"
  let ?ctx = "VDict [(''users_per_day'', VInt 1000),
             (''features'',
                VList [VStr ''catalog'', VStr ''cart'', VStr ''payment'',
                       VStr ''admin_dashboard'']),
             (''data_types'',
                VList [VStr ''user_profiles'', VStr ''payment_info'', VStr ''inventory'']),
             (''constraints'',
                VList [VStr ''scalable'', VStr ''secure_payments'', VStr ''low_ops''])]"
  have h1: "1 < length ?ags" by simp
  have h2: "stage_context ?ags ''online store'' 1 = Inr ?ctx"
    by (simp add: stage_context_def RequirementsAgent_run_def)
  have h3: "(?ags ! 1) ?ctx = Inl TypeError"
    by simp
  from stage_fault_propagates [OF h1 h2 h3] h2 show ?thesis by simp
qed

text \<open>
  C4 as stated fails: \<^verbatim>\<open>ComplianceAgent\<close> in first position raises on the problem
  string, and the run returns the error instead of a mapping with two entries.
\<close>

theorem run_stops_at_raising_stage:
  "Orchestrator_run \<lparr>agents = [ComplianceAgent_run, ReviewAgent_run]\<rparr> ''online store''
     = Inl AttributeError"
  by (simp add: Orchestrator_run_def ComplianceAgent_run_def)

text \<open>
  C5 (as the code has it): \<^verbatim>\<open>Orchestrator.__init__\<close> accepts every agent list and
  stores it unchanged. A run on the empty list returns the empty mapping. A run in which
  two agents return the same name is carried out as any other and returns fewer entries
  than there are agents.
\<close>

theorem init_accepts_every_sequence:
  "Orchestrator_init ags = Inr \<lparr>agents = ags\<rparr>
   \<and> Orchestrator_run \<lparr>agents = []\<rparr> problem = Inr []
   \<and> (run_responses ags (VStr problem) = Inr rs \<and> \<not> distinct (map name rs) \<longrightarrow>
        (\<exists>results. Orchestrator_run \<lparr>agents = ags\<rparr> problem = Inr results
                  \<and> length results < length ags))"
proof -
  have init: "Orchestrator_init ags = Inr \<lparr>agents = ags\<rparr>"
    by (simp add: Orchestrator_init_def)
  have empty: "Orchestrator_run \<lparr>agents = []\<rparr> problem = Inr []"
    by (simp add: Orchestrator_run_def)
  have dup: "\<exists>results. Orchestrator_run \<lparr>agents = ags\<rparr> problem = Inr results
                  \<and> length results < length ags"
    if rs: "run_responses ags (VStr problem) = Inr rs" and nd: "\<not> distinct (map name rs)"
  proof -
    have run: "Orchestrator_run \<lparr>agents = ags\<rparr> problem = Inr (foldl record_result [] rs)"
      by (simp add: Orchestrator_run_def run_loop_responses rs)
    have "card (set (map name rs)) \<noteq> length (map name rs)"
      using nd card_distinct by blast
    moreover have "card (set (map name rs)) \<le> length (map name rs)"
      by (rule card_length)
    ultimately have "card (name ` set rs) < length rs"
      by simp
    then have "length (foldl record_result [] rs) < length ags"
      using run_responses_length [OF rs] by (simp add: length_record_results)
    with run show ?thesis by simp
  qed
  from init empty dup show ?thesis by blast
qed

text \<open>The same agent listed twice.\<close>

theorem init_accepts_every_sequence_witness:
  "Orchestrator_init [RequirementsAgent_run, RequirementsAgent_run]
     = Inr \<lparr>agents = [RequirementsAgent_run, RequirementsAgent_run]\<rparr>
   \<and> (\<exists>results.
         Orchestrator_run \<lparr>agents = [RequirementsAgent_run, RequirementsAgent_run]\<rparr>
           ''online store'' = Inr results
         \<and> length results < 2)"
proof -
  let ?ags = "[RequirementsAgent_run, RequirementsAgent_run]"
  have "\<exists>rs. run_responses ?ags (VStr ''online store'') = Inr rs
          \<and> \<not> distinct (map name rs)"
    by (simp add: RequirementsAgent_run_def)
  then obtain rs where
    both: "run_responses ?ags (VStr ''online store'') = Inr rs \<and> \<not> distinct (map name rs)" ..
  note all = init_accepts_every_sequence [of ?ags "''online store''" rs]
  note init = all [THEN conjunct1]
  note dup = all [THEN conjunct2, THEN conjunct2, THEN mp, OF both]
  have len: "length ?ags = 2" by simp
  from dup have "\<exists>results. Orchestrator_run \<lparr>agents = ?ags\<rparr> ''online store'' = Inr results
                   \<and> length results < 2"
    by (simp only: len)
  with init show ?thesis by (rule conjI)
qed

text \<open>
  C5 as stated fails: construction succeeds on the empty list and on a list with a
  repeated name, and \<^verbatim>\<open>run\<close> is accepted on both.
\<close>

theorem init_no_validation:
  "Orchestrator_init [] = Inr \<lparr>agents = []\<rparr>
   \<and> Orchestrator_run \<lparr>agents = []\<rparr> ''online store'' = Inr []
   \<and> Orchestrator_init [RequirementsAgent_run, RequirementsAgent_run]
       = Inr \<lparr>agents = [RequirementsAgent_run, RequirementsAgent_run]\<rparr>
   \<and> (case Orchestrator_run \<lparr>agents = [RequirementsAgent_run, RequirementsAgent_run]\<rparr>
             ''online store'' of
         Inl e \<Rightarrow> False
       | Inr results \<Rightarrow> map fst results = [''RequirementsAgent''])"
  by (simp add: Orchestrator_init_def Orchestrator_run_def RequirementsAgent_run_def
      record_result_def)

text \<open>
  C8: in every run in which two Findings, produced one after the other, both set the key
  \<open>k\<close>, the merged context holds for \<open>k\<close> the value of the later Finding as
  soon as that Finding is merged, and the final merged context still holds it when the
  later Finding is the last of the run to set \<open>k\<close>. The later Finding's output is a
  Python dict, so its keys are pairwise distinct.
\<close>

theorem later_finding_wins:
  assumes "run_responses ags (VStr problem) = Inr rs"
    and "i < j" and "j < length rs"
    and "map_of (output' (rs ! i)) k = Some u"
    and "map_of (output' (rs ! j)) k = Some v"
    and "wf_dict (output' (rs ! j))"
  shows "(\<exists>d. stage_context ags problem (Suc j) = Inr (VDict d) \<and> map_of d k = Some v)
         \<and> ((\<forall>l. j < l \<and> l < length rs \<longrightarrow> map_of (output' (rs ! l)) k = None) \<longrightarrow>
              (\<exists>results d. run_loop ags ([], VStr problem) = Inr (results, VDict d)
                           \<and> map_of d k = Some v))"
proof -
  let ?pre = "take (Suc j) rs"
  have pre: "run_responses (take (Suc j) ags) (VStr problem) = Inr ?pre"
    by (rule run_responses_take [OF assms(1)])
  have j: "j < length ?pre" using assms(3) by simp
  have v: "map_of (output' (?pre ! j)) k = Some v" using assms(5) by simp
  have wf: "wf_dict (output' (?pre ! j))" using assms(6) by simp
  have none: "\<forall>l. j < l \<and> l < length ?pre \<longrightarrow> map_of (output' (?pre ! l)) k = None"
    by auto
  from context_last_setter [OF j v wf none, of "VStr problem"]
  obtain d where d: "foldl next_context (VStr problem) ?pre = VDict d"
    and dv: "map_of d k = Some v"
    by blast
  have after: "\<exists>d. stage_context ags problem (Suc j) = Inr (VDict d) \<and> map_of d k = Some v"
    using stage_context_responses [OF pre] d dv by simp
  have final: "\<exists>results d. run_loop ags ([], VStr problem) = Inr (results, VDict d)
                           \<and> map_of d k = Some v"
    if later: "\<forall>l. j < l \<and> l < length rs \<longrightarrow> map_of (output' (rs ! l)) k = None"
  proof -
    from context_last_setter [OF assms(3) assms(5) assms(6) later, of "VStr problem"]
    obtain d' where d': "foldl next_context (VStr problem) rs = VDict d'"
      and v': "map_of d' k = Some v"
      by blast
    have "run_loop ags ([], VStr problem) = Inr (foldl record_result [] rs, VDict d')"
      by (simp add: run_loop_responses assms(1) d')
    with v' show ?thesis by blast
  qed
  from after final show ?thesis by blast
qed

text \<open>
  \<^verbatim>\<open>ArchitectureAgent\<close> before and after \<^verbatim>\<open>ComplianceAgent\<close>: the first sets
  \<^verbatim>\<open>security\<close> to the empty list, the second to the security controls.
\<close>

theorem later_finding_wins_witness:
  "(\<exists>d. stage_context [RequirementsAgent_run, ArchitectureAgent_run, ComplianceAgent_run,
                ArchitectureAgent_run, ReviewAgent_run] ''online store'' 4 = Inr (VDict d)
        \<and> map_of d ''security'' = Some security_controls)
   \<and> (\<exists>results d.
      run_loop [RequirementsAgent_run, ArchitectureAgent_run, ComplianceAgent_run,
                ArchitectureAgent_run, ReviewAgent_run] ([], VStr ''online store'')
        = Inr (results, VDict d)
      \<and> map_of d ''security'' = Some security_controls)"
proof -
  let ?ags = "[RequirementsAgent_run, ArchitectureAgent_run, ComplianceAgent_run,
               ArchitectureAgent_run, ReviewAgent_run]"
  have "\<exists>rs. run_responses ?ags (VStr ''online store'') = Inr rs
          \<and> length rs = 5
          \<and> map_of (output' (rs ! 1)) ''security'' = Some (VList [])
          \<and> map_of (output' (rs ! 3)) ''security'' = Some security_controls
          \<and> wf_dict (output' (rs ! 3))
          \<and> map_of (output' (rs ! 4)) ''security'' = None"
    by (simp add: agent_defs wf_dict_def)
  then obtain rs where
    all: "run_responses ?ags (VStr ''online store'') = Inr rs
          \<and> length rs = 5
          \<and> map_of (output' (rs ! 1)) ''security'' = Some (VList [])
          \<and> map_of (output' (rs ! 3)) ''security'' = Some security_controls
          \<and> wf_dict (output' (rs ! 3))
          \<and> map_of (output' (rs ! 4)) ''security'' = None" ..
  note rs = all [THEN conjunct1]
    and len = all [THEN conjunct2, THEN conjunct1]
    and u = all [THEN conjunct2, THEN conjunct2, THEN conjunct1]
    and v = all [THEN conjunct2, THEN conjunct2, THEN conjunct2, THEN conjunct1]
    and wf = all [THEN conjunct2, THEN conjunct2, THEN conjunct2, THEN conjunct2, THEN conjunct1]
    and last = all [THEN conjunct2, THEN conjunct2, THEN conjunct2, THEN conjunct2,
                    THEN conjunct2]
  have ij: "(1::nat) < 3" by simp
  have j: "3 < length rs" by (simp add: len)
  have later: "\<forall>l. 3 < l \<and> l < length rs \<longrightarrow> map_of (output' (rs ! l)) ''security'' = None"
  proof (intro allI impI)
    fix l assume "3 < l \<and> l < length rs"
    then have "l = 4" using len by arith
    then show "map_of (output' (rs ! l)) ''security'' = None" using last by simp
  qed
  note both = later_finding_wins [OF rs ij j u v wf]
  have s: "Suc 3 = 4" by simp
  from both [THEN conjunct1] have a: "\<exists>d. stage_context ?ags ''online store'' 4 = Inr (VDict d)
        \<and> map_of d ''security'' = Some security_controls"
    by (simp only: s)
  note b = both [THEN conjunct2, THEN mp, OF later]
  from a b show ?thesis by (rule conjI)
qed

end
